theory Spec2Isabelle
  imports Main
begin

section \<open>WASP: filter_remapped_reads.py\<close>

text \<open>
  A shallow embedding of \<^verbatim>\<open>src/mapping/filter_remapped_reads.py\<close>.
  The two BAM inputs are finite lists of alignment records, the output BAM is the list of
  records written to it, the dictionary \<^verbatim>\<open>read_counts\<close> is a map, the two
  name sets are sets of strings, every \<^verbatim>\<open>raise\<close> of the script (and of the
  built-ins \<^verbatim>\<open>int\<close> and tuple unpacking) is a value \<open>Inl e\<close>.
  A string is the list of its code points, which are all below 256 (pysam decodes a read
  name as ASCII), and \<^verbatim>\<open>int\<close> is the built-in of CPython 3.11 with its settings
  as installed.
\<close>

subsection \<open>Alignment records and errors\<close>

text \<open>The fields of a pysam record that the script reads.\<close>

record alignment =
  qname :: string
  is_secondary :: bool
  is_paired :: bool
  is_proper_pair :: bool
  is_read1 :: bool
  is_read2 :: bool
  pos :: int
  next_reference_start :: int

text \<open>
  Every failure of the script is a Python \<^verbatim>\<open>ValueError\<close>; the constructors tell the
  raising places apart and carry what the message is formatted from.
  \<^item> \<open>BadReadName q\<close>: line 69, fewer than four fields in the read name \<open>q\<close>;
  \<^item> \<open>InvalidLiteral s\<close>: \<^verbatim>\<open>int(s)\<close> at lines 79, 80, 95, 96 and 115;
  \<^item> \<open>UnpackError n\<close>: \<^verbatim>\<open>c1, c2 = coord_str.split("-")\<close> at line 86, on \<open>n \<noteq> 2\<close> parts;
  \<^item> \<open>SeenTooOften name\<close>: line 131.
\<close>

datatype error =
    BadReadName string
  | InvalidLiteral string
  | UnpackError nat
  | SeenTooOften string

subsection \<open>The string built-ins\<close>

text \<open>\<^verbatim>\<open>s.split(d)\<close> for a one-character separator: never empty, \<^verbatim>\<open>"".split(".") == [""]\<close>.\<close>

fun split_on :: "char \<Rightarrow> string \<Rightarrow> string list" where
  "split_on d [] = [[]]"
| "split_on d (c # cs) =
     (if c = d then [] # split_on d cs
      else (case split_on d cs of
              [] \<Rightarrow> [[c]]
            | w # ws \<Rightarrow> (c # w) # ws))"

text \<open>\<^verbatim>\<open>sep.join(words)\<close>.\<close>

fun join :: "string \<Rightarrow> string list \<Rightarrow> string" where
  "join sep [] = []"
| "join sep [w] = w"
| "join sep (w # v # ws) = w @ sep @ join sep (v # ws)"

text \<open>
  \<^verbatim>\<open>int(s)\<close> on a string, base 10, as CPython computes it
  (\<^verbatim>\<open>PyLong_FromUnicodeObject\<close> and \<^verbatim>\<open>PyLong_FromString\<close>).
  \<^item> The string is first brought to ASCII, code point by code point: one below 127 stays,
    one that is Unicode white space becomes a blank (from 127 to 255 these are 0x85 and
    0xA0), any other becomes a question mark, no code point from 127 to 255 being a decimal
    digit. The conversion stops after the first question mark; the model converts the rest
    as well, which changes nothing, a question mark being accepted nowhere.
  \<^item> Then the C white space (code points 9 to 13 and 32, not 28 to 31) is skipped at both
    ends, an optional sign is read, and what remains has to be decimal digits, where single
    underscores may stand between two digits.
  \<^item> More than 4300 digits are refused (\<^verbatim>\<open>sys.int_info.default_max_str_digits\<close>);
    underscores and the sign do not count.
  Every refusal is a \<^verbatim>\<open>ValueError\<close>, the value \<open>None\<close> here.
\<close>

definition to_ascii :: "char \<Rightarrow> char" where
  "to_ascii c =
     (if (of_char c :: nat) < 127 then c
      else if of_char c \<in> {133, 160 :: nat} then CHR '' ''
      else CHR ''?'')"

definition is_space :: "char \<Rightarrow> bool" where
  "is_space c = (of_char c \<in> {9, 10, 11, 12, 13, 32 :: nat})"

definition strip :: "string \<Rightarrow> string" where
  "strip s = rev (dropWhile is_space (rev (dropWhile is_space s)))"

definition is_digit :: "char \<Rightarrow> bool" where
  "is_digit c = (48 \<le> (of_char c :: nat) \<and> (of_char c :: nat) \<le> 57)"

definition digit_val :: "char \<Rightarrow> int" where
  "digit_val c = int (of_char c) - 48"

fun digits_ok :: "string \<Rightarrow> bool" where
  "digits_ok [] = False"
| "digits_ok [c] = is_digit c"
| "digits_ok (c # d # cs) =
     (is_digit c \<and> (if d = CHR ''_'' then digits_ok cs else digits_ok (d # cs)))"

definition digits_val :: "string \<Rightarrow> int" where
  "digits_val ds = foldl (\<lambda>a c. 10 * a + digit_val c) 0 (filter (\<lambda>c. c \<noteq> CHR ''_'') ds)"

definition max_str_digits :: nat where
  "max_str_digits = 4300"

definition parse_digits :: "string \<Rightarrow> int option" where
  "parse_digits ds =
     (if digits_ok ds \<and> length (filter (\<lambda>c. c \<noteq> CHR ''_'') ds) \<le> max_str_digits
      then Some (digits_val ds) else None)"

definition py_int :: "string \<Rightarrow> int option" where
  "py_int s =
     (case strip (map to_ascii s) of
        [] \<Rightarrow> None
      | c # cs \<Rightarrow>
          if c = CHR ''-'' then map_option uminus (parse_digits cs)
          else if c = CHR ''+'' then parse_digits cs
          else parse_digits (c # cs))"

subsection \<open>The first pass: filter_reads\<close>

text \<open>
  Lines 67 to 80: the read name is split at the dots; with fewer than four words the script
  raises; the last three words are the coordinate, the number of the read and the total,
  the words before them, joined by dots again, are the original name. The number and the
  total are converted by \<^verbatim>\<open>int\<close>, in this order (\<open>tot\<close> is the script's
  \<^verbatim>\<open>total\<close>).
\<close>

definition parse_qname :: "string \<Rightarrow> error + (string \<times> string \<times> int \<times> int)" where
  "parse_qname q =
     (let words = split_on CHR ''.'' q in
      if length words < 4 then Inl (BadReadName q)
      else
        let orig_name = join ''.'' (take (length words - 3) words);
            coord_str = words ! (length words - 3);
            num_str = words ! (length words - 2);
            total_str = words ! (length words - 1)
        in (case py_int num_str of
              None \<Rightarrow> Inl (InvalidLiteral num_str)
            | Some num \<Rightarrow>
                (case py_int total_str of
                   None \<Rightarrow> Inl (InvalidLiteral total_str)
                 | Some tot \<Rightarrow> Inr (orig_name, coord_str, num, tot))))"

text \<open>
  Lines 82 to 119 decide what becomes of the record:
  \<^item> \<open>RightEnd\<close>: the \<^verbatim>\<open>continue\<close> of line 112, nothing is recorded;
  \<^item> \<open>Mismapped\<close>: the original name goes to \<^verbatim>\<open>bad_reads\<close> (lines 89, 92 and 139);
  \<^item> \<open>Mapped\<close>: \<^verbatim>\<open>correct_map\<close> is true at line 121.
  The variables \<^verbatim>\<open>left_pos\<close> and \<^verbatim>\<open>right_pos\<close> are assigned at lines 97 to 102
  and not read afterwards: line 107 compares \<^verbatim>\<open>pos1\<close> and \<^verbatim>\<open>pos2\<close>.
\<close>

datatype outcome = RightEnd | Mismapped | Mapped

definition check_coord :: "alignment \<Rightarrow> string \<Rightarrow> error + outcome" where
  "check_coord read coord_str =
     (if CHR ''-'' \<in> set coord_str then
        (case split_on CHR ''-'' coord_str of
           [c1, c2] \<Rightarrow>
             if \<not> is_paired read then Inr Mismapped
             else if \<not> is_proper_pair read then Inr Mismapped
             else
               (case py_int c1 of
                  None \<Rightarrow> Inl (InvalidLiteral c1)
                | Some pos1 \<Rightarrow>
                    (case py_int c2 of
                       None \<Rightarrow> Inl (InvalidLiteral c2)
                     | Some pos2 \<Rightarrow>
                         let left_pos = (if pos1 < pos2 then pos1 else pos2);
                             right_pos = (if pos1 < pos2 then pos2 else pos1)
                         in
                           if pos read < next_reference_start read
                              \<or> (pos read = next_reference_start read
                                  \<and> is_read1 read \<and> \<not> is_read2 read)
                           then
                             (if pos1 = pos read + 1 \<and> pos2 = next_reference_start read + 1
                              then Inr Mapped else Inr Mismapped)
                           else Inr RightEnd))
         | parts \<Rightarrow> Inl (UnpackError (length parts)))
      else
        (case py_int coord_str of
           None \<Rightarrow> Inl (InvalidLiteral coord_str)
         | Some p \<Rightarrow> if p = pos read + 1 then Inr Mapped else Inr Mismapped))"

text \<open>The three local variables of \<^verbatim>\<open>filter_reads\<close>.\<close>

record state =
  read_counts :: "string \<rightharpoonup> int"
  keep_reads :: "string set"
  bad_reads :: "string set"

definition init_state :: state where
  "init_state = \<lparr>read_counts = Map.empty, keep_reads = {}, bad_reads = {}\<rparr>"

text \<open>Lines 122 to 136: one more correctly mapped version of \<open>orig_name\<close>.\<close>

definition count_mapped :: "state \<Rightarrow> string \<Rightarrow> int \<Rightarrow> error + state" where
  "count_mapped st orig_name tot =
     (let n = (case read_counts st orig_name of None \<Rightarrow> 1 | Some c \<Rightarrow> c + 1) in
      if n = tot then
        (if orig_name \<in> keep_reads st then Inl (SeenTooOften orig_name)
         else Inr (st\<lparr>read_counts := (read_counts st)(orig_name := None),
                      keep_reads := insert orig_name (keep_reads st)\<rparr>))
      else Inr (st\<lparr>read_counts := (read_counts st)(orig_name \<mapsto> n)\<rparr>))"

text \<open>Lines 89, 92 and 139.\<close>

definition add_bad :: "state \<Rightarrow> string \<Rightarrow> state" where
  "add_bad st orig_name = st\<lparr>bad_reads := insert orig_name (bad_reads st)\<rparr>"

text \<open>The body of the loop of line 57, for one record.\<close>

definition filter_reads_step :: "state \<Rightarrow> alignment \<Rightarrow> error + state" where
  "filter_reads_step st read =
     (if is_secondary read then Inr st
      else
        (case parse_qname (qname read) of
           Inl e \<Rightarrow> Inl e
         | Inr (orig_name, coord_str, num, tot) \<Rightarrow>
             (case check_coord read coord_str of
                Inl e \<Rightarrow> Inl e
              | Inr RightEnd \<Rightarrow> Inr st
              | Inr Mismapped \<Rightarrow> Inr (add_bad st orig_name)
              | Inr Mapped \<Rightarrow> count_mapped st orig_name tot)))"

fun filter_reads_loop :: "state \<Rightarrow> alignment list \<Rightarrow> error + state" where
  "filter_reads_loop st [] = Inr st"
| "filter_reads_loop st (read # remap_bam) =
     (case filter_reads_step st read of
        Inl e \<Rightarrow> Inl e
      | Inr st' \<Rightarrow> filter_reads_loop st' remap_bam)"

definition filter_reads :: "alignment list \<Rightarrow> error + (string set \<times> string set)" where
  "filter_reads remap_bam =
     (case filter_reads_loop init_state remap_bam of
        Inl e \<Rightarrow> Inl e
      | Inr st \<Rightarrow> Inr (keep_reads st, bad_reads st))"

subsection \<open>The second pass: write_reads\<close>

text \<open>
  The three counters and the output file. The script prints the counters at the end; the
  model returns them with the records written, in the order they were written.
\<close>

record tally =
  keep_count :: int
  bad_count :: int
  discard_count :: int
  keep_bam :: "alignment list"

definition init_tally :: tally where
  "init_tally = \<lparr>keep_count = 0, bad_count = 0, discard_count = 0, keep_bam = []\<rparr>"

definition write_reads_step :: "string set \<Rightarrow> string set \<Rightarrow> tally \<Rightarrow> alignment \<Rightarrow> tally" where
  "write_reads_step keep bad t read =
     (if qname read \<in> bad then t\<lparr>bad_count := bad_count t + 1\<rparr>
      else if qname read \<in> keep then
        t\<lparr>keep_count := keep_count t + 1, keep_bam := keep_bam t @ [read]\<rparr>
      else t\<lparr>discard_count := discard_count t + 1\<rparr>)"

fun write_reads_loop :: "string set \<Rightarrow> string set \<Rightarrow> tally \<Rightarrow> alignment list \<Rightarrow> tally" where
  "write_reads_loop keep bad t [] = t"
| "write_reads_loop keep bad t (read # to_remap_bam) =
     write_reads_loop keep bad (write_reads_step keep bad t read) to_remap_bam"

definition write_reads :: "alignment list \<Rightarrow> string set \<Rightarrow> string set \<Rightarrow> tally" where
  "write_reads to_remap_bam keep bad = write_reads_loop keep bad init_tally to_remap_bam"

text \<open>\<^verbatim>\<open>main\<close>: the first pass over the remapped reads, then the second over the original ones.\<close>

definition main :: "alignment list \<Rightarrow> alignment list \<Rightarrow> error + tally" where
  "main to_remap_bam remap_bam =
     (case filter_reads remap_bam of
        Inl e \<Rightarrow> Inl e
      | Inr (keep, bad) \<Rightarrow> Inr (write_reads to_remap_bam keep bad))"

subsection \<open>Notions used in the properties\<close>

text \<open>
  What the loop body decides for a record that is not skipped as secondary and raises
  nothing: the outcome of lines 82 to 119 with the original name and the total of lines 77
  to 80. \<open>None\<close> for a secondary record and for one on which the body raises before
  line 121.
\<close>

definition verdict :: "alignment \<Rightarrow> (outcome \<times> string \<times> int) option" where
  "verdict read =
     (if is_secondary read then None
      else
        (case parse_qname (qname read) of
           Inl e \<Rightarrow> None
         | Inr (orig_name, coord_str, num, tot) \<Rightarrow>
             (case check_coord read coord_str of
                Inl e \<Rightarrow> None
              | Inr out \<Rightarrow> Some (out, orig_name, tot))))"

text \<open>
  The records of a stream that line 121 finds correctly mapped for an original name, and
  the streams of a producer that emits, for every name, at most as many such records as
  each of them announces as its total.
\<close>

definition counts_for :: "string \<Rightarrow> alignment \<Rightarrow> bool" where
  "counts_for name read =
     (case verdict read of
        None \<Rightarrow> False
      | Some (out, orig_name, tot) \<Rightarrow> out = Mapped \<and> orig_name = name)"

definition mapped_count :: "string \<Rightarrow> alignment list \<Rightarrow> nat" where
  "mapped_count name rs = length (filter (counts_for name) rs)"

definition within_total :: "alignment list \<Rightarrow> bool" where
  "within_total rs =
     list_all (\<lambda>read. case verdict read of
                  None \<Rightarrow> True
                | Some (out, orig_name, tot) \<Rightarrow>
                    out \<noteq> Mapped \<or> int (mapped_count orig_name rs) \<le> tot) rs"

text \<open>
  The invariant of the count map behind the second property of the duplicate check:
  \<open>seen n\<close> is the number of correctly mapped records of the name \<open>n\<close> read so far.
\<close>

definition counts_inv :: "state \<Rightarrow> (string \<Rightarrow> nat) \<Rightarrow> bool" where
  "counts_inv st seen =
     (\<forall>n. case read_counts st n of
            None \<Rightarrow> n \<in> keep_reads st \<longrightarrow> 1 \<le> seen n
          | Some c \<Rightarrow> 1 \<le> c \<and> c + (if n \<in> keep_reads st then 1 else 0) \<le> int (seen n))"

text \<open>
  Two records that are the same but for the number of the read, the field before the last
  of the read name, which is an integer for \<^verbatim>\<open>int\<close> in both; and two records that are
  equal or differ in this way.
\<close>

definition same_but_num :: "alignment \<Rightarrow> alignment \<Rightarrow> bool" where
  "same_but_num r r' =
     (let ws = split_on CHR ''.'' (qname r); ws' = split_on CHR ''.'' (qname r') in
      r' = r\<lparr>qname := qname r'\<rparr>
      \<and> 4 \<le> length ws
      \<and> ws' = ws[length ws - 2 := ws' ! (length ws - 2)]
      \<and> py_int (ws ! (length ws - 2)) \<noteq> None
      \<and> py_int (ws' ! (length ws - 2)) \<noteq> None)"

definition variant_of :: "alignment \<Rightarrow> alignment \<Rightarrow> bool" where
  "variant_of r r' = (r' = r \<or> same_but_num r r')"

text \<open>
  Records for the examples: a primary alignment of a single-end read, and a primary
  alignment of a properly paired read with its mate's position (\<open>first\<close> tells read 1
  from read 2).
\<close>

definition single_end :: "string \<Rightarrow> int \<Rightarrow> alignment" where
  "single_end q p =
     \<lparr>qname = q, is_secondary = False, is_paired = False, is_proper_pair = False,
      is_read1 = False, is_read2 = False, pos = p, next_reference_start = 0\<rparr>"

definition proper_pair :: "string \<Rightarrow> int \<Rightarrow> int \<Rightarrow> bool \<Rightarrow> alignment" where
  "proper_pair q p mate first =
     \<lparr>qname = q, is_secondary = False, is_paired = True, is_proper_pair = True,
      is_read1 = first, is_read2 = (\<not> first), pos = p, next_reference_start = mate\<rparr>"

section \<open>Properties\<close>

subsection \<open>Decoding read names\<close>

lemma split_on_not_Nil: "split_on d s \<noteq> []"
  by (induction s) (auto split: list.splits)

lemma join_Cons_Cons: "join sep ((c # w) # ws) = c # join sep (w # ws)"
  by (cases ws) auto

lemma join_split_on: "join [d] (split_on d s) = s"
proof (induction s)
  case Nil
  show ?case by simp
next
  case (Cons c cs)
  obtain w ws where ws: "split_on d cs = w # ws"
    using split_on_not_Nil [of d cs] by (cases "split_on d cs") auto
  show ?case
  proof (cases "c = d")
    case True
    with Cons ws show ?thesis by simp
  next
    case False
    with Cons ws show ?thesis by (simp add: join_Cons_Cons)
  qed
qed

lemma join_append_fields:
  "names \<noteq> [] \<Longrightarrow> join sep (names @ [a, b, c]) = join sep names @ sep @ a @ sep @ b @ sep @ c"
  by (induction sep names rule: join.induct) auto

lemma parse_qname_words:
  assumes "split_on CHR ''.'' q = names @ [coord_str, num_str, total_str]" and "names \<noteq> []"
  shows "parse_qname q =
    (case py_int num_str of
       None \<Rightarrow> Inl (InvalidLiteral num_str)
     | Some num \<Rightarrow>
         (case py_int total_str of
            None \<Rightarrow> Inl (InvalidLiteral total_str)
          | Some tot \<Rightarrow> Inr (join ''.'' names, coord_str, num, tot)))"
proof -
  have len: "\<not> length (split_on CHR ''.'' q) < 4"
    using assms by (cases names) auto
  have n3: "length (split_on CHR ''.'' q) - 3 = length names"
    and n2: "length (split_on CHR ''.'' q) - 2 = Suc (length names)"
    and n1: "length (split_on CHR ''.'' q) - 1 = Suc (Suc (length names))"
    using assms by auto
  show ?thesis
    unfolding parse_qname_def Let_def n3 n2 n1 using len
    by (simp add: assms(1) nth_append split: option.splits)
qed

text \<open>
  Claim C5. A read name with at least four dot-separated fields, whose last two fields are
  integers for \<^verbatim>\<open>int\<close>, is decoded into its last three fields (the coordinate as a
  string, the number of the read and the total as integers) and the fields before them,
  joined by dots again; the read name is the original name so obtained followed by the three
  fields. \<^verbatim>\<open>readA.100.1.2\<close> gives the name \<^verbatim>\<open>readA\<close>, the coordinate
  \<^verbatim>\<open>100\<close>, the number 1 and the total 2; \<^verbatim>\<open>read.with.dots.100.1.2\<close> gives the
  name \<^verbatim>\<open>read.with.dots\<close>.
\<close>

theorem decode_last_three_fields:
  "(split_on CHR ''.'' q = names @ [coord_str, num_str, total_str] \<and> names \<noteq> []
      \<and> py_int num_str = Some num \<and> py_int total_str = Some tot
    \<longrightarrow> parse_qname q = Inr (join ''.'' names, coord_str, num, tot)
        \<and> q = join ''.'' names @ ''.'' @ coord_str @ ''.'' @ num_str @ ''.'' @ total_str)
   \<and> parse_qname ''readA.100.1.2'' = Inr (''readA'', ''100'', 1, 2)
   \<and> parse_qname ''read.with.dots.100.1.2'' = Inr (''read.with.dots'', ''100'', 1, 2)"
proof (intro conjI impI)
  assume h: "split_on CHR ''.'' q = names @ [coord_str, num_str, total_str] \<and> names \<noteq> []
      \<and> py_int num_str = Some num \<and> py_int total_str = Some tot"
  then show "parse_qname q = Inr (join ''.'' names, coord_str, num, tot)"
    by (simp add: parse_qname_words)
  have "q = join ''.'' (split_on CHR ''.'' q)"
    by (simp add: join_split_on)
  with h show "q = join ''.'' names @ ''.'' @ coord_str @ ''.'' @ num_str @ ''.'' @ total_str"
    by (simp add: join_append_fields)
next
  show "parse_qname ''readA.100.1.2'' = Inr (''readA'', ''100'', 1, 2)"
    by code_simp
next
  show "parse_qname ''read.with.dots.100.1.2'' = Inr (''read.with.dots'', ''100'', 1, 2)"
    by code_simp
qed

theorem decode_last_three_fields_witness:
  "split_on CHR ''.'' ''a.b.7-9.3.4'' = [''a'', ''b''] @ [''7-9'', ''3'', ''4'']
   \<and> py_int ''3'' = Some 3 \<and> py_int ''4'' = Some 4
   \<and> parse_qname ''a.b.7-9.3.4'' = Inr (''a.b'', ''7-9'', 3, 4)"
proof -
  have s: "split_on CHR ''.'' ''a.b.7-9.3.4'' = [''a'', ''b''] @ [''7-9'', ''3'', ''4'']"
    by simp
  have n: "py_int ''3'' = Some 3" and t: "py_int ''4'' = Some 4"
    by code_simp+
  from decode_last_three_fields [of "''a.b.7-9.3.4''" "[''a'', ''b'']" "''7-9''" "''3''" "''4''" 3 4]
    s n t
  show ?thesis by simp
qed

lemmas run_simps =
  filter_reads_def filter_reads_step_def init_state_def count_mapped_def add_bad_def
  check_coord_def parse_qname_def py_int_def parse_digits_def max_str_digits_def
  to_ascii_def strip_def is_space_def digits_val_def
  digit_val_def is_digit_def Let_def single_end_def proper_pair_def
  write_reads_def write_reads_step_def init_tally_def main_def

text \<open>
  What \<^verbatim>\<open>int\<close> skips around a field: the code points 28 to 31 are white space for
  \<^verbatim>\<open>str.isspace\<close> but not for \<^verbatim>\<open>int\<close>, which raises on them, as line 79 does
  on the read name below; 0x85 and 0xA0 are skipped. A read name whose number of the read
  is refused is no variant of the one with the number 1.
\<close>

lemma int_white_space_examples:
  "py_int [CHR 0x1C, CHR ''1''] = None \<and> py_int [CHR ''1'', CHR 0x1F] = None
   \<and> py_int [CHR 0xA0, CHR ''1''] = Some 1 \<and> py_int [CHR 0x85, CHR ''1'', CHR 0xA0] = Some 1
   \<and> py_int [CHR 0x09, CHR ''1'', CHR 0x0D, CHR 0x20] = Some 1
   \<and> py_int [CHR ''1'', CHR 0x7F] = None \<and> py_int [CHR ''1'', CHR 0xB2] = None
   \<and> parse_qname (''a.101.1'' @ [CHR 0x1F] @ ''.1'') = Inl (InvalidLiteral [CHR ''1'', CHR 0x1F])
   \<and> parse_qname (''a.101.'' @ [CHR 0xA0, CHR ''1''] @ ''.1'') = Inr (''a'', ''101'', 1, 1)
   \<and> filter_reads [single_end (''a.101.1.'' @ [CHR 0x1C, CHR ''1'']) 100]
       = Inl (InvalidLiteral [CHR 0x1C, CHR ''1''])"
  by (simp add: run_simps)

lemma refused_number_is_no_variant:
  "\<not> variant_of (single_end ''a.101.1.1'' 100)
       (single_end (''a.101.1'' @ [CHR 0x1F] @ ''.1'') 100)
   \<and> variant_of (single_end ''a.101.1.1'' 100)
       (single_end (''a.101.'' @ [CHR 0xA0, CHR ''1''] @ ''.1'') 100)"
  by (simp add: run_simps variant_of_def same_but_num_def)

subsection \<open>The second pass\<close>

lemma write_reads_loop_eq:
  "write_reads_loop keep bad t rs =
     \<lparr>keep_count = keep_count t
        + int (length (filter (\<lambda>r. qname r \<notin> bad \<and> qname r \<in> keep) rs)),
      bad_count = bad_count t + int (length (filter (\<lambda>r. qname r \<in> bad) rs)),
      discard_count = discard_count t
        + int (length (filter (\<lambda>r. qname r \<notin> bad \<and> qname r \<notin> keep) rs)),
      keep_bam = keep_bam t @ filter (\<lambda>r. qname r \<notin> bad \<and> qname r \<in> keep) rs\<rparr>"
  by (induction rs arbitrary: t) (simp_all add: write_reads_step_def)

lemma length_three_way:
  "length (filter (\<lambda>r. \<not> B r \<and> K r) rs) + length (filter B rs)
     + length (filter (\<lambda>r. \<not> B r \<and> \<not> K r) rs) = length rs"
  by (induction rs) auto

text \<open>
  Claim C8. \<^verbatim>\<open>write_reads\<close> puts every record of the original stream into exactly one
  of three classes, testing \<^verbatim>\<open>bad_reads\<close> before \<^verbatim>\<open>keep_reads\<close>: the bad count
  is the number of records whose name is in \<^verbatim>\<open>bad_reads\<close>, the keep count the number
  of the others whose name is in \<^verbatim>\<open>keep_reads\<close>, the discard count the number of the
  rest, and the three add up to the number of records read. No flag of a record is looked
  at, so a secondary alignment in the original stream is counted like any other record.
\<close>

theorem write_reads_counts_every_record:
  "keep_count (write_reads to_remap_bam keep bad) + bad_count (write_reads to_remap_bam keep bad)
     + discard_count (write_reads to_remap_bam keep bad) = int (length to_remap_bam)
   \<and> bad_count (write_reads to_remap_bam keep bad)
       = int (length (filter (\<lambda>r. qname r \<in> bad) to_remap_bam))
   \<and> keep_count (write_reads to_remap_bam keep bad)
       = int (length (filter (\<lambda>r. qname r \<notin> bad \<and> qname r \<in> keep) to_remap_bam))
   \<and> discard_count (write_reads to_remap_bam keep bad)
       = int (length (filter (\<lambda>r. qname r \<notin> bad \<and> qname r \<notin> keep) to_remap_bam))
   \<and> keep_bam (write_reads to_remap_bam keep bad)
       = filter (\<lambda>r. qname r \<notin> bad \<and> qname r \<in> keep) to_remap_bam"
proof -
  have "int (length (filter (\<lambda>r. qname r \<notin> bad \<and> qname r \<in> keep) to_remap_bam))
      + int (length (filter (\<lambda>r. qname r \<in> bad) to_remap_bam))
      + int (length (filter (\<lambda>r. qname r \<notin> bad \<and> qname r \<notin> keep) to_remap_bam))
      = int (length to_remap_bam)"
    using length_three_way [of "\<lambda>r. qname r \<in> bad" "\<lambda>r. qname r \<in> keep" to_remap_bam]
    by linarith
  then show ?thesis
    by (simp add: write_reads_def write_reads_loop_eq init_tally_def)
qed

text \<open>
  Claim C1, as stated, fails on the script: \<^verbatim>\<open>write_reads\<close> looks the read name up as
  it is. After the remapped record \<^verbatim>\<open>r1.101.1.1\<close> at position 100 has put
  \<^verbatim>\<open>r1\<close> into \<^verbatim>\<open>keep_reads\<close>, an original record named \<^verbatim>\<open>r1.101.1.1\<close> is
  discarded: nothing is written and the keep count stays 0.
\<close>

theorem filter_lookup_decodes_counterexample:
  "filter_reads [single_end ''r1.101.1.1'' 100] = Inr ({''r1''}, {})
   \<and> main [single_end ''r1.101.1.1'' 100] [single_end ''r1.101.1.1'' 100]
       = Inr \<lparr>keep_count = 0, bad_count = 0, discard_count = 1, keep_bam = []\<rparr>"
  by (simp add: run_simps)

text \<open>
  Claim C1, amended. For every record of the original stream, \<^verbatim>\<open>write_reads\<close> tests
  the read name itself, undecoded, for membership in \<^verbatim>\<open>bad_reads\<close> and then in
  \<^verbatim>\<open>keep_reads\<close>: the records written are those whose name is in \<^verbatim>\<open>keep_reads\<close>
  and not in \<^verbatim>\<open>bad_reads\<close>. In particular, after the remapped record
  \<^verbatim>\<open>r1.101.1.1\<close> at position 100 has put \<^verbatim>\<open>r1\<close> into \<^verbatim>\<open>keep_reads\<close>, an
  original record named \<^verbatim>\<open>r1\<close> is written and the keep count becomes 1.
\<close>

theorem filter_lookup_by_qname:
  "keep_bam (write_reads to_remap_bam keep bad)
     = filter (\<lambda>r. qname r \<notin> bad \<and> qname r \<in> keep) to_remap_bam
   \<and> main [single_end ''r1'' 100] [single_end ''r1.101.1.1'' 100]
       = Inr \<lparr>keep_count = 1, bad_count = 0, discard_count = 0,
              keep_bam = [single_end ''r1'' 100]\<rparr>"
  by (simp add: write_reads_loop_eq run_simps)

subsection \<open>The loop\<close>

lemma filter_reads_loop_append:
  "filter_reads_loop st (xs @ ys) =
     (case filter_reads_loop st xs of Inl e \<Rightarrow> Inl e | Inr st' \<Rightarrow> filter_reads_loop st' ys)"
  by (induction xs arbitrary: st) (auto split: sum.splits)

lemma step_of_verdict:
  "verdict read = Some (out, orig_name, tot) \<Longrightarrow>
   filter_reads_step st read =
     (case out of RightEnd \<Rightarrow> Inr st | Mismapped \<Rightarrow> Inr (add_bad st orig_name)
      | Mapped \<Rightarrow> count_mapped st orig_name tot)"
  by (auto simp: verdict_def filter_reads_step_def split: if_splits sum.splits outcome.splits)

lemma parse_qname_error:
  "parse_qname q = Inl e \<Longrightarrow> e \<noteq> SeenTooOften m"
  by (auto simp: parse_qname_def Let_def split: if_splits option.splits)

lemma check_coord_error:
  "check_coord read coord_str = Inl e \<Longrightarrow> e \<noteq> SeenTooOften m"
  unfolding check_coord_def Let_def
  by (simp split: if_splits list.splits option.splits) auto

lemma step_no_verdict:
  assumes "verdict read = None"
  shows "filter_reads_step st read = Inr st
    \<or> (\<exists>e. filter_reads_step st read = Inl e \<and> (\<forall>m. e \<noteq> SeenTooOften m))"
proof (cases "is_secondary read")
  case True
  then show ?thesis by (simp add: filter_reads_step_def)
next
  case False
  show ?thesis
  proof (cases "parse_qname (qname read)")
    case (Inl e)
    with False parse_qname_error [OF Inl] show ?thesis
      by (simp add: filter_reads_step_def)
  next
    case (Inr p)
    obtain n c i t where p: "p = (n, c, i, t)" by (cases p) auto
    from assms False Inr p obtain e where e: "check_coord read c = Inl e"
      by (cases "check_coord read c") (auto simp: verdict_def)
    with False Inr p check_coord_error [OF e] show ?thesis
      by (simp add: filter_reads_step_def)
  qed
qed

lemma count_mapped_sets:
  "count_mapped st n t = Inr st' \<Longrightarrow>
   bad_reads st' = bad_reads st \<and> keep_reads st \<subseteq> keep_reads st'"
  by (auto simp: count_mapped_def Let_def split: if_splits)

lemma step_sets_grow:
  assumes "filter_reads_step st read = Inr st'"
  shows "bad_reads st \<subseteq> bad_reads st' \<and> keep_reads st \<subseteq> keep_reads st'"
proof (cases "verdict read")
  case None
  with step_no_verdict [of read st] assms show ?thesis by auto
next
  case (Some v)
  then obtain out n t where v: "verdict read = Some (out, n, t)" by (cases v) auto
  show ?thesis
    using assms step_of_verdict [OF v, of st] count_mapped_sets [of st n t st']
    by (cases out) (auto simp: add_bad_def)
qed

lemma loop_sets_grow:
  "filter_reads_loop st rs = Inr st' \<Longrightarrow>
   bad_reads st \<subseteq> bad_reads st' \<and> keep_reads st \<subseteq> keep_reads st'"
proof (induction rs arbitrary: st)
  case Nil
  then show ?case by simp
next
  case (Cons r rs)
  then obtain st1 where s1: "filter_reads_step st r = Inr st1"
    and l1: "filter_reads_loop st1 rs = Inr st'"
    by (auto split: sum.splits)
  from step_sets_grow [OF s1] Cons.IH [OF l1] show ?case by blast
qed

text \<open>
  Claim C3, as stated, fails on the script: a name can be in both sets when
  \<^verbatim>\<open>filter_reads\<close> returns, whether the mismapped record comes after the record that
  completes the name or before it.
\<close>

theorem keep_bad_disjoint_counterexample:
  "filter_reads [single_end ''a.101.1.1'' 100, single_end ''a.101.1.1'' 5]
     = Inr ({''a''}, {''a''})
   \<and> filter_reads [single_end ''a.101.1.1'' 5, single_end ''a.101.1.1'' 100]
     = Inr ({''a''}, {''a''})"
  by (simp add: run_simps)

text \<open>
  Claim C3, amended. On every remapped stream on which the loop returns normally, neither
  set loses a member (a name added to \<^verbatim>\<open>bad_reads\<close> stays there, and so does a name
  added to \<^verbatim>\<open>keep_reads\<close>, so the two sets may share names), and since
  \<^verbatim>\<open>write_reads\<close> tests \<^verbatim>\<open>bad_reads\<close> first, every record it writes has a name
  in \<^verbatim>\<open>keep_reads\<close> that is not in \<^verbatim>\<open>bad_reads\<close>.
\<close>

theorem bad_name_never_written:
  assumes "filter_reads_loop st remap_bam = Inr st'"
  shows "bad_reads st \<subseteq> bad_reads st' \<and> keep_reads st \<subseteq> keep_reads st'
    \<and> (\<forall>r \<in> set (keep_bam (write_reads to_remap_bam (keep_reads st') (bad_reads st'))).
          qname r \<in> keep_reads st' - bad_reads st')"
  using loop_sets_grow [OF assms]
  by (simp add: write_reads_def write_reads_loop_eq init_tally_def)

theorem bad_name_never_written_witness:
  "filter_reads_loop init_state
      [single_end ''a.101.1.1'' 100, single_end ''a.101.1.1'' 5, single_end ''b.8.1.1'' 7]
     = Inr \<lparr>read_counts = Map.empty, keep_reads = {''b'', ''a''}, bad_reads = {''a''}\<rparr>
   \<and> keep_bam (write_reads [single_end ''a'' 100, single_end ''b'' 7] {''b'', ''a''} {''a''})
     = [single_end ''b'' 7]"
proof -
  have run: "filter_reads_loop init_state
      [single_end ''a.101.1.1'' 100, single_end ''a.101.1.1'' 5, single_end ''b.8.1.1'' 7]
     = Inr \<lparr>read_counts = Map.empty, keep_reads = {''b'', ''a''}, bad_reads = {''a''}\<rparr>"
    by (simp add: run_simps)
  from bad_name_never_written [OF run, of "[single_end ''a'' 100, single_end ''b'' 7]"]
  show ?thesis
    using run by (simp add: run_simps)
qed

subsection \<open>The count map\<close>

lemma count_mapped_at_total:
  "(case read_counts st n of None \<Rightarrow> 1 | Some c \<Rightarrow> c + 1) = t \<Longrightarrow>
   count_mapped st n t = Inr st' \<Longrightarrow>
   read_counts st' n = None \<and> n \<in> keep_reads st'"
  by (auto simp: count_mapped_def Let_def split: if_splits)

lemma count_mapped_below_total:
  "(case read_counts st n of None \<Rightarrow> 1 | Some c \<Rightarrow> c + 1) \<noteq> t \<Longrightarrow>
   count_mapped st n t =
     Inr (st\<lparr>read_counts := (read_counts st)
            (n \<mapsto> (case read_counts st n of None \<Rightarrow> 1 | Some c \<Rightarrow> c + 1))\<rparr>)"
  by (simp add: count_mapped_def Let_def)

text \<open>
  Claim C9, as stated, fails on the script: after a correctly mapped and a mismapped version
  of \<^verbatim>\<open>orig3\<close> (total 2) the name has the count 1 and is in \<^verbatim>\<open>bad_reads\<close>; and a
  name already in \<^verbatim>\<open>keep_reads\<close> gets a count entry again with the next correctly
  mapped record that announces a larger total.
\<close>

theorem counted_name_in_no_set_counterexample:
  "filter_reads_loop init_state
     [single_end ''orig3.101.1.2'' 100, single_end ''orig3.101.2.2'' 5]
     = Inr \<lparr>read_counts = [''orig3'' \<mapsto> 1], keep_reads = {}, bad_reads = {''orig3''}\<rparr>
  \<and> filter_reads_loop init_state
     [single_end ''a.101.1.1'' 100, single_end ''a.101.1.2'' 100]
     = Inr \<lparr>read_counts = [''a'' \<mapsto> 1], keep_reads = {''a''}, bad_reads = {}\<rparr>"
  by (simp add: run_simps)

text \<open>
  Claim C9, amended. At every state of the loop: when a correctly mapped record brings the
  count of its original name to its total and the body returns, the name has no count
  entry afterwards and is in \<^verbatim>\<open>keep_reads\<close>; when the count does not equal the total,
  the body only stores the new count; and a mismapped record only adds the name to
  \<^verbatim>\<open>bad_reads\<close>, leaving the count map as it is. So a name with a count entry may well
  be in \<^verbatim>\<open>bad_reads\<close> or in \<^verbatim>\<open>keep_reads\<close>.
\<close>

theorem count_entry_removed_at_total:
  "(verdict read = Some (Mapped, orig_name, tot)
      \<and> (case read_counts st orig_name of None \<Rightarrow> 1 | Some c \<Rightarrow> c + 1) = tot
      \<and> filter_reads_step st read = Inr st'
    \<longrightarrow> read_counts st' orig_name = None \<and> orig_name \<in> keep_reads st')
   \<and> (verdict read = Some (Mapped, orig_name, tot)
      \<and> (case read_counts st orig_name of None \<Rightarrow> 1 | Some c \<Rightarrow> c + 1) \<noteq> tot
    \<longrightarrow> filter_reads_step st read =
          Inr (st\<lparr>read_counts := (read_counts st)
                 (orig_name \<mapsto> (case read_counts st orig_name of None \<Rightarrow> 1 | Some c \<Rightarrow> c + 1))\<rparr>))
   \<and> (verdict read = Some (Mismapped, orig_name, tot)
    \<longrightarrow> filter_reads_step st read = Inr (st\<lparr>bad_reads := insert orig_name (bad_reads st)\<rparr>))"
proof (intro conjI)
  show "verdict read = Some (Mapped, orig_name, tot)
      \<and> (case read_counts st orig_name of None \<Rightarrow> 1 | Some c \<Rightarrow> c + 1) = tot
      \<and> filter_reads_step st read = Inr st'
    \<longrightarrow> read_counts st' orig_name = None \<and> orig_name \<in> keep_reads st'"
    using step_of_verdict [of read Mapped orig_name tot st]
      count_mapped_at_total [of st orig_name tot st']
    by auto
next
  show "verdict read = Some (Mapped, orig_name, tot)
      \<and> (case read_counts st orig_name of None \<Rightarrow> 1 | Some c \<Rightarrow> c + 1) \<noteq> tot
    \<longrightarrow> filter_reads_step st read =
          Inr (st\<lparr>read_counts := (read_counts st)
                 (orig_name \<mapsto> (case read_counts st orig_name of None \<Rightarrow> 1 | Some c \<Rightarrow> c + 1))\<rparr>)"
    using step_of_verdict [of read Mapped orig_name tot st]
      count_mapped_below_total [of st orig_name tot]
    by auto
next
  show "verdict read = Some (Mismapped, orig_name, tot)
    \<longrightarrow> filter_reads_step st read = Inr (st\<lparr>bad_reads := insert orig_name (bad_reads st)\<rparr>)"
    using step_of_verdict [of read Mismapped orig_name tot st] by (simp add: add_bad_def)
qed

lemmas verdict_simps = verdict_def check_coord_def parse_qname_def py_int_def
  parse_digits_def max_str_digits_def to_ascii_def strip_def
  is_space_def digits_val_def digit_val_def is_digit_def Let_def single_end_def proper_pair_def

theorem count_entry_removed_at_total_witness:
  "verdict (single_end ''orig3.101.2.2'' 100) = Some (Mapped, ''orig3'', 2)
   \<and> filter_reads_step \<lparr>read_counts = [''orig3'' \<mapsto> 1], keep_reads = {}, bad_reads = {}\<rparr>
        (single_end ''orig3.101.2.2'' 100)
      = Inr \<lparr>read_counts = Map.empty, keep_reads = {''orig3''}, bad_reads = {}\<rparr>
   \<and> verdict (single_end ''orig3.101.1.2'' 100) = Some (Mapped, ''orig3'', 2)
   \<and> filter_reads_step init_state (single_end ''orig3.101.1.2'' 100)
      = Inr \<lparr>read_counts = [''orig3'' \<mapsto> 1], keep_reads = {}, bad_reads = {}\<rparr>
   \<and> verdict (single_end ''orig3.101.2.2'' 5) = Some (Mismapped, ''orig3'', 2)
   \<and> filter_reads_step \<lparr>read_counts = [''orig3'' \<mapsto> 1], keep_reads = {}, bad_reads = {}\<rparr>
        (single_end ''orig3.101.2.2'' 5)
      = Inr \<lparr>read_counts = [''orig3'' \<mapsto> 1], keep_reads = {}, bad_reads = {''orig3''}\<rparr>"
proof -
  let ?one = "\<lparr>read_counts = [''orig3'' \<mapsto> (1::int)], keep_reads = {}, bad_reads = {}\<rparr>"
  have v1: "verdict (single_end ''orig3.101.2.2'' 100) = Some (Mapped, ''orig3'', 2)"
    by (simp add: verdict_simps)
  have v2: "verdict (single_end ''orig3.101.1.2'' 100) = Some (Mapped, ''orig3'', 2)"
    by (simp add: verdict_simps)
  have v3: "verdict (single_end ''orig3.101.2.2'' 5) = Some (Mismapped, ''orig3'', 2)"
    by (simp add: verdict_simps)
  have s1: "filter_reads_step ?one (single_end ''orig3.101.2.2'' 100)
      = Inr \<lparr>read_counts = Map.empty, keep_reads = {''orig3''}, bad_reads = {}\<rparr>"
    by (simp add: run_simps)
  have t1: "read_counts \<lparr>read_counts = Map.empty, keep_reads = {''orig3''}, bad_reads = {}\<rparr> ''orig3''
        = None
      \<and> ''orig3'' \<in> keep_reads \<lparr>read_counts = Map.empty, keep_reads = {''orig3''}, bad_reads = {}\<rparr>"
    by (rule count_entry_removed_at_total
          [of "single_end ''orig3.101.2.2'' 100" "''orig3''" 2 ?one,
            THEN conjunct1, THEN mp])
       (simp add: v1 s1)
  have t2: "filter_reads_step init_state (single_end ''orig3.101.1.2'' 100)
      = Inr (init_state\<lparr>read_counts := (read_counts init_state)(''orig3'' \<mapsto>
          (case read_counts init_state ''orig3'' of None \<Rightarrow> 1 | Some c \<Rightarrow> c + 1))\<rparr>)"
    by (rule count_entry_removed_at_total
          [of "single_end ''orig3.101.1.2'' 100" "''orig3''" 2 init_state,
            THEN conjunct2, THEN conjunct1, THEN mp])
       (simp add: v2 init_state_def)
  have t3: "filter_reads_step ?one (single_end ''orig3.101.2.2'' 5)
      = Inr (?one\<lparr>bad_reads := insert ''orig3'' (bad_reads ?one)\<rparr>)"
    by (rule count_entry_removed_at_total
          [of "single_end ''orig3.101.2.2'' 5" "''orig3''" 2 ?one,
            THEN conjunct2, THEN conjunct2, THEN mp])
       (simp add: v3)
  from t2 have t2': "filter_reads_step init_state (single_end ''orig3.101.1.2'' 100) = Inr ?one"
    by (simp add: init_state_def)
  from t3 have t3': "filter_reads_step ?one (single_end ''orig3.101.2.2'' 5)
      = Inr \<lparr>read_counts = [''orig3'' \<mapsto> 1], keep_reads = {}, bad_reads = {''orig3''}\<rparr>"
    by simp
  show ?thesis
    by (intro conjI v1 v2 v3 s1 t2' t3')
qed

subsection \<open>Malformed read names\<close>

lemma parse_qname_malformed:
  assumes "length (split_on CHR ''.'' q) < 4
    \<or> py_int (split_on CHR ''.'' q ! (length (split_on CHR ''.'' q) - 2)) = None
    \<or> py_int (split_on CHR ''.'' q ! (length (split_on CHR ''.'' q) - 1)) = None"
  shows "parse_qname q = Inl (BadReadName q)
    \<or> parse_qname q = Inl (InvalidLiteral (split_on CHR ''.'' q ! (length (split_on CHR ''.'' q) - 2)))
    \<or> parse_qname q = Inl (InvalidLiteral (split_on CHR ''.'' q ! (length (split_on CHR ''.'' q) - 1)))"
proof (cases "length (split_on CHR ''.'' q) < 4")
  case True
  then show ?thesis by (simp add: parse_qname_def)
next
  case long: False
  show ?thesis
  proof (cases "py_int (split_on CHR ''.'' q ! (length (split_on CHR ''.'' q) - 2))")
    case None
    with long show ?thesis by (simp add: parse_qname_def Let_def)
  next
    case (Some num)
    with long assms
    have "py_int (split_on CHR ''.'' q ! (length (split_on CHR ''.'' q) - 1)) = None"
      by simp
    with long Some show ?thesis by (simp add: parse_qname_def Let_def)
  qed
qed

text \<open>
  Claim C6. For a record that is not secondary and whose read name has fewer than four
  dot-separated fields, or a field before the last or a last field that \<^verbatim>\<open>int\<close> does
  not accept, the loop body raises in every state: the error of line 69 or the one of
  \<^verbatim>\<open>int\<close> on the offending field. A run that reaches the record ends with this error,
  in \<^verbatim>\<open>filter_reads\<close> and in \<^verbatim>\<open>main\<close>, and every run on a stream that contains the
  record ends with an error.
\<close>

theorem malformed_name_aborts:
  assumes "\<not> is_secondary read"
    and "words = split_on CHR ''.'' (qname read)"
    and "length words < 4
      \<or> py_int (words ! (length words - 2)) = None
      \<or> py_int (words ! (length words - 1)) = None"
  shows "\<exists>e. (e = BadReadName (qname read)
              \<or> e = InvalidLiteral (words ! (length words - 2))
              \<or> e = InvalidLiteral (words ! (length words - 1)))
    \<and> filter_reads_step st read = Inl e
    \<and> (filter_reads_loop init_state before = Inr st
         \<longrightarrow> filter_reads (before @ read # rest) = Inl e
           \<and> main to_remap_bam (before @ read # rest) = Inl e)
    \<and> (\<exists>e'. filter_reads (before @ read # rest) = Inl e')"
proof -
  from parse_qname_malformed [of "qname read"] assms(3)
  obtain e where e: "e = BadReadName (qname read)
              \<or> e = InvalidLiteral (words ! (length words - 2))
              \<or> e = InvalidLiteral (words ! (length words - 1))"
    and p: "parse_qname (qname read) = Inl e"
    unfolding assms(2) by blast
  have step: "filter_reads_step s read = Inl e" for s
    using assms(1) p by (simp add: filter_reads_step_def)
  have run: "filter_reads_loop init_state before = Inr st
         \<longrightarrow> filter_reads (before @ read # rest) = Inl e
           \<and> main to_remap_bam (before @ read # rest) = Inl e"
    by (simp add: filter_reads_def main_def filter_reads_loop_append step)
  have abort: "\<exists>e'. filter_reads (before @ read # rest) = Inl e'"
    by (cases "filter_reads_loop init_state before")
       (simp_all add: filter_reads_def filter_reads_loop_append step)
  show ?thesis
  proof (rule exI [of _ e], intro conjI)
    show "e = BadReadName (qname read)
              \<or> e = InvalidLiteral (words ! (length words - 2))
              \<or> e = InvalidLiteral (words ! (length words - 1))"
      by (rule e)
    show "filter_reads_step st read = Inl e"
      by (rule step)
    show "filter_reads_loop init_state before = Inr st
         \<longrightarrow> filter_reads (before @ read # rest) = Inl e
           \<and> main to_remap_bam (before @ read # rest) = Inl e"
      by (rule run)
    show "\<exists>e'. filter_reads (before @ read # rest) = Inl e'"
      by (rule abort)
  qed
qed

theorem malformed_name_aborts_witness:
  "(\<exists>e. filter_reads_step init_state (single_end ''r1.101.1'' 100) = Inl e
        \<and> filter_reads ([] @ single_end ''r1.101.1'' 100 # [single_end ''r1.101.1.1'' 100]) = Inl e)
   \<and> filter_reads [single_end ''r1.101.1'' 100, single_end ''r1.101.1.1'' 100]
       = Inl (BadReadName ''r1.101.1'')
   \<and> filter_reads [single_end ''r1.101.1.1'' 100, single_end ''r1.101.x.1'' 100]
       = Inl (InvalidLiteral ''x'')
   \<and> filter_reads [single_end ''r1.101.1.1x'' 100] = Inl (InvalidLiteral ''1x'')"
proof -
  have h1: "\<not> is_secondary (single_end ''r1.101.1'' 100)"
    by (simp add: single_end_def)
  have h2: "[''r1'', ''101'', ''1''] = split_on CHR ''.'' (qname (single_end ''r1.101.1'' 100))"
    by (simp add: single_end_def)
  have h3: "length [''r1'', ''101'', ''1''] < 4
      \<or> py_int ([''r1'', ''101'', ''1''] ! (length [''r1'', ''101'', ''1''] - 2)) = None
      \<or> py_int ([''r1'', ''101'', ''1''] ! (length [''r1'', ''101'', ''1''] - 1)) = None"
    by simp
  have l0: "filter_reads_loop init_state [] = Inr init_state"
    by simp
  from malformed_name_aborts [OF h1 h2 h3, of init_state "[]" "[single_end ''r1.101.1.1'' 100]" "[]"]
  obtain e where "filter_reads_step init_state (single_end ''r1.101.1'' 100) = Inl e"
    and "filter_reads_loop init_state [] = Inr init_state
         \<longrightarrow> filter_reads ([] @ single_end ''r1.101.1'' 100 # [single_end ''r1.101.1.1'' 100]) = Inl e
           \<and> main [] ([] @ single_end ''r1.101.1'' 100 # [single_end ''r1.101.1.1'' 100]) = Inl e"
    by (elim exE conjE)
  with l0 have first: "\<exists>e. filter_reads_step init_state (single_end ''r1.101.1'' 100) = Inl e
        \<and> filter_reads ([] @ single_end ''r1.101.1'' 100 # [single_end ''r1.101.1.1'' 100]) = Inl e"
    by (intro exI [of _ e]) simp
  have e1: "filter_reads [single_end ''r1.101.1'' 100, single_end ''r1.101.1.1'' 100]
       = Inl (BadReadName ''r1.101.1'')"
    by (simp add: run_simps)
  have e2: "filter_reads [single_end ''r1.101.1.1'' 100, single_end ''r1.101.x.1'' 100]
       = Inl (InvalidLiteral ''x'')"
    by (simp add: run_simps)
  have e3: "filter_reads [single_end ''r1.101.1.1x'' 100] = Inl (InvalidLiteral ''1x'')"
    by (simp add: run_simps)
  show ?thesis
    by (intro conjI first e1 e2 e3)
qed

subsection \<open>Mates at the same position\<close>

lemma split_on_no_sep: "d \<notin> set s \<Longrightarrow> split_on d s = [s]"
  by (induction s) auto

lemma check_coord_pair:
  assumes "split_on CHR ''-'' coord_str = [c1, c2]"
    and "py_int c1 = Some pos1" and "py_int c2 = Some pos2"
    and "is_paired read" and "is_proper_pair read"
  shows "check_coord read coord_str =
    (if pos read < next_reference_start read
        \<or> (pos read = next_reference_start read \<and> is_read1 read \<and> \<not> is_read2 read)
     then (if pos1 = pos read + 1 \<and> pos2 = next_reference_start read + 1
           then Inr Mapped else Inr Mismapped)
     else Inr RightEnd)"
proof -
  have "CHR ''-'' \<in> set coord_str"
    using assms(1) split_on_no_sep [of "CHR ''-''" coord_str] by auto
  then show ?thesis
    using assms by (simp add: check_coord_def Let_def)
qed

text \<open>
  Claim C7. Take a record of a proper pair that is not secondary, whose read name decodes,
  whose coordinate field holds two integers, and whose start equals its mate's start. If it
  is flagged read 1 and not read 2, it decides: it is counted as correctly mapped or its name
  goes to \<^verbatim>\<open>bad_reads\<close>, by the comparison of line 107. Otherwise it is the
  \<^verbatim>\<open>continue\<close> of line 112: the state is returned unchanged, so nothing is counted and
  nothing is added to \<^verbatim>\<open>bad_reads\<close>.
\<close>

theorem tied_mates_one_decides:
  assumes "\<not> is_secondary read"
    and "parse_qname (qname read) = Inr (orig_name, coord_str, num, tot)"
    and "split_on CHR ''-'' coord_str = [c1, c2]"
    and "py_int c1 = Some pos1" and "py_int c2 = Some pos2"
    and "is_paired read" and "is_proper_pair read"
    and "pos read = next_reference_start read"
  shows "(is_read1 read \<and> \<not> is_read2 read \<longrightarrow>
            check_coord read coord_str \<noteq> Inr RightEnd
          \<and> filter_reads_step st read =
              (if pos1 = pos read + 1 \<and> pos2 = pos read + 1
               then count_mapped st orig_name tot else Inr (add_bad st orig_name)))
       \<and> (\<not> (is_read1 read \<and> \<not> is_read2 read) \<longrightarrow>
            check_coord read coord_str = Inr RightEnd
          \<and> filter_reads_step st read = Inr st)"
proof -
  note c = check_coord_pair [OF assms(3-7)]
  show ?thesis
    using assms(1,2,8) by (auto simp: c filter_reads_step_def)
qed

theorem tied_mates_one_decides_witness:
  "filter_reads_step init_state (proper_pair ''p.7-7.1.2'' 6 6 True)
     = Inr \<lparr>read_counts = [''p'' \<mapsto> 1], keep_reads = {}, bad_reads = {}\<rparr>
   \<and> filter_reads_step init_state (proper_pair ''p.7-7.1.2'' 6 6 False) = Inr init_state
   \<and> filter_reads_step init_state (proper_pair ''p.7-9.1.2'' 6 6 True)
     = Inr \<lparr>read_counts = Map.empty, keep_reads = {}, bad_reads = {''p''}\<rparr>"
proof -
  have q: "parse_qname (qname (proper_pair ''p.7-7.1.2'' 6 6 b)) = Inr (''p'', ''7-7'', 1, 2)" for b
    by (simp add: verdict_simps)
  have s: "split_on CHR ''-'' ''7-7'' = [''7'', ''7'']"
    by simp
  have i: "py_int ''7'' = Some 7"
    by (simp add: verdict_simps)
  have f: "\<not> is_secondary (proper_pair n 6 6 b)" "is_paired (proper_pair n 6 6 b)"
    "is_proper_pair (proper_pair n 6 6 b)"
    "pos (proper_pair n 6 6 b) = next_reference_start (proper_pair n 6 6 b)" for n b
    by (simp_all add: proper_pair_def)
  note T = tied_mates_one_decides [OF f(1) q s i i f(2) f(3) f(4), of _ init_state]
  have first: "filter_reads_step init_state (proper_pair ''p.7-7.1.2'' 6 6 True)
     = Inr \<lparr>read_counts = [''p'' \<mapsto> 1], keep_reads = {}, bad_reads = {}\<rparr>"
    using T [of True, THEN conjunct1]
    by (simp add: proper_pair_def count_mapped_def init_state_def)
  have second: "filter_reads_step init_state (proper_pair ''p.7-7.1.2'' 6 6 False) = Inr init_state"
    using T [of False, THEN conjunct2] by (simp add: proper_pair_def)
  have third: "filter_reads_step init_state (proper_pair ''p.7-9.1.2'' 6 6 True)
     = Inr \<lparr>read_counts = Map.empty, keep_reads = {}, bad_reads = {''p''}\<rparr>"
    by (simp add: run_simps)
  show ?thesis
    by (intro conjI first second third)
qed

subsection \<open>The order of the two coordinates\<close>

text \<open>
  Claim C2 does not hold of the script: the coordinates are sorted into
  \<^verbatim>\<open>left_pos\<close> and \<^verbatim>\<open>right_pos\<close>, but line 107 compares \<^verbatim>\<open>pos1\<close> and
  \<^verbatim>\<open>pos2\<close> in the order they are written. The left mate of a proper pair at position
  49 with its mate at 79 has start + 1 equal to the smaller and mate start + 1 equal to the
  larger of the coordinates \<^verbatim>\<open>80-50\<close>, and is found mismapped; with the coordinates
  written \<^verbatim>\<open>50-80\<close> the same record is found correctly mapped.
\<close>

theorem paired_order_failing_input:
  "pos (proper_pair ''r2.80-50.1.1'' 49 79 True) + 1 = min 80 50
   \<and> next_reference_start (proper_pair ''r2.80-50.1.1'' 49 79 True) + 1 = max 80 50
   \<and> check_coord (proper_pair ''r2.80-50.1.1'' 49 79 True) ''80-50'' = Inr Mismapped
   \<and> filter_reads [proper_pair ''r2.80-50.1.1'' 49 79 True] = Inr ({}, {''r2''})
   \<and> filter_reads [proper_pair ''r2.50-80.1.1'' 49 79 True] = Inr ({''r2''}, {})"
  by (simp add: run_simps)

subsection \<open>The number of the read is not used\<close>

lemma check_coord_qname [simp]:
  "check_coord (read\<lparr>qname := q\<rparr>) coord_str = check_coord read coord_str"
  unfolding check_coord_def
  by (simp cong del: if_weak_cong cong: list.case_cong option.case_cong if_cong)

lemma parse_qname_same_but_num:
  assumes "same_but_num r r'"
  shows "(\<exists>e. parse_qname (qname r) = Inl e \<and> parse_qname (qname r') = Inl e)
    \<or> (\<exists>name coord num num' tot. parse_qname (qname r) = Inr (name, coord, num, tot)
          \<and> parse_qname (qname r') = Inr (name, coord, num', tot))"
proof -
  define ws where "ws = split_on CHR ''.'' (qname r)"
  define ws' where "ws' = split_on CHR ''.'' (qname r')"
  define n where "n = length ws"
  from assms have len: "4 \<le> n"
    and upd: "ws' = ws[n - 2 := ws' ! (n - 2)]"
    and num: "py_int (ws ! (n - 2)) \<noteq> None"
    and num': "py_int (ws' ! (n - 2)) \<noteq> None"
    unfolding same_but_num_def Let_def ws_def [symmetric] ws'_def [symmetric] n_def [symmetric]
    by simp_all
  from upd have len': "length ws' = n"
    by (metis length_list_update n_def)
  have tk: "take (n - 3) ws' = take (n - 3) ws"
    by (subst upd) (simp add: take_update_cancel)
  have c: "ws' ! (n - 3) = ws ! (n - 3)"
    using len by (subst upd) simp
  have t: "ws' ! (n - Suc 0) = ws ! (n - Suc 0)"
    using len by (subst upd) simp
  obtain i i' where i: "py_int (ws ! (n - 2)) = Some i" and i': "py_int (ws' ! (n - 2)) = Some i'"
    using num num' by auto
  have p: "parse_qname (qname r) =
      (case py_int (ws ! (n - 1)) of None \<Rightarrow> Inl (InvalidLiteral (ws ! (n - 1)))
       | Some tot \<Rightarrow> Inr (join ''.'' (take (n - 3) ws), ws ! (n - 3), i, tot))"
    using len i
    by (simp add: parse_qname_def Let_def ws_def [symmetric] n_def [symmetric]
        split: option.split)
  have p': "parse_qname (qname r') =
      (case py_int (ws ! (n - 1)) of None \<Rightarrow> Inl (InvalidLiteral (ws ! (n - 1)))
       | Some tot \<Rightarrow> Inr (join ''.'' (take (n - 3) ws), ws ! (n - 3), i', tot))"
    using len i'
    by (simp add: parse_qname_def Let_def ws'_def [symmetric] len' tk c t
        split: option.split)
  show ?thesis
    unfolding p p' by (cases "py_int (ws ! (n - 1))") simp_all
qed

lemma step_same_but_num:
  assumes "same_but_num r r'"
  shows "filter_reads_step st r' = filter_reads_step st r"
proof -
  from assms have r': "r' = r\<lparr>qname := qname r'\<rparr>"
    by (simp add: same_but_num_def Let_def)
  have sec: "is_secondary r' = is_secondary r"
    by (subst r') simp
  have cc: "check_coord r' c = check_coord r c" for c
    by (subst r') simp
  from parse_qname_same_but_num [OF assms] show ?thesis
    by (auto simp: filter_reads_step_def sec cc)
qed

lemma loop_variant_of:
  "list_all2 variant_of rs rs' \<Longrightarrow> filter_reads_loop st rs' = filter_reads_loop st rs"
proof (induction rs rs' arbitrary: st rule: list_all2_induct)
  case Nil
  show ?case by simp
next
  case (Cons r rs r' rs')
  from Cons.hyps(1) have "filter_reads_step st r' = filter_reads_step st r"
    using step_same_but_num [of r r' st] by (auto simp: variant_of_def)
  with Cons.IH show ?case
    by (simp split: sum.splits)
qed

text \<open>
  Claim C10. Two remapped streams whose records are pairwise equal, or equal but for the
  number of the read in a read name of at least four fields (an integer in both), give the
  same result of \<^verbatim>\<open>filter_reads\<close>: the same two sets, or the same error.
\<close>

theorem read_number_not_used:
  assumes "list_all2 variant_of remap_bam remap_bam'"
  shows "filter_reads remap_bam' = filter_reads remap_bam"
  using loop_variant_of [OF assms] by (simp add: filter_reads_def)

theorem read_number_not_used_witness:
  "variant_of (single_end ''a.101.1.2'' 100) (single_end ''a.101.9.2'' 100)
   \<and> variant_of (single_end ''a.101.2.2'' 100) (single_end ''a.101.2.2'' 100)
   \<and> filter_reads [single_end ''a.101.9.2'' 100, single_end ''a.101.2.2'' 100]
     = filter_reads [single_end ''a.101.1.2'' 100, single_end ''a.101.2.2'' 100]"
proof -
  have v1: "variant_of (single_end ''a.101.1.2'' 100) (single_end ''a.101.9.2'' 100)"
    by (simp add: variant_of_def same_but_num_def verdict_simps)
  have v2: "variant_of (single_end ''a.101.2.2'' 100) (single_end ''a.101.2.2'' 100)"
    by (simp add: variant_of_def)
  have "list_all2 variant_of [single_end ''a.101.1.2'' 100, single_end ''a.101.2.2'' 100]
      [single_end ''a.101.9.2'' 100, single_end ''a.101.2.2'' 100]"
    using v1 v2 by simp
  from read_number_not_used [OF this] v1 v2 show ?thesis
    by (intro conjI)
qed

subsection \<open>Reads seen more often than expected\<close>

lemma counts_inv_init: "counts_inv init_state seen"
  by (simp add: counts_inv_def init_state_def)

lemma counts_inv_same:
  assumes "counts_inv st seen"
    and "read_counts st' = read_counts st" and "keep_reads st' = keep_reads st"
  shows "counts_inv st' seen"
  using assms(1) unfolding counts_inv_def assms(2) assms(3) .

lemma counts_inv_mapped:
  assumes "counts_inv st seen" and "count_mapped st n t = Inr st'"
  shows "counts_inv st' (seen(n := Suc (seen n)))"
  unfolding counts_inv_def
proof
  fix m
  from assms(1) have inv: "case read_counts st m of
            None \<Rightarrow> m \<in> keep_reads st \<longrightarrow> 1 \<le> seen m
          | Some c \<Rightarrow> 1 \<le> c \<and> c + (if m \<in> keep_reads st then 1 else 0) \<le> int (seen m)"
    by (simp add: counts_inv_def)
  show "case read_counts st' m of
            None \<Rightarrow> m \<in> keep_reads st' \<longrightarrow> 1 \<le> (seen(n := Suc (seen n))) m
          | Some c \<Rightarrow> 1 \<le> c \<and> c + (if m \<in> keep_reads st' then 1 else 0)
              \<le> int ((seen(n := Suc (seen n))) m)"
    using assms(2) inv
    by (auto simp: count_mapped_def Let_def split: if_splits option.splits)
qed

lemma count_mapped_error:
  assumes "counts_inv st seen" and "count_mapped st n t = Inl e"
  shows "e = SeenTooOften n \<and> t \<le> int (seen n)"
proof -
  from assms(1) have inv: "case read_counts st n of
            None \<Rightarrow> n \<in> keep_reads st \<longrightarrow> 1 \<le> seen n
          | Some c \<Rightarrow> 1 \<le> c \<and> c + (if n \<in> keep_reads st then 1 else 0) \<le> int (seen n)"
    by (simp add: counts_inv_def)
  show ?thesis
    using assms(2) inv
    by (auto simp: count_mapped_def Let_def split: if_splits option.splits)
qed

lemma mapped_count_snoc:
  "mapped_count n (pre @ [r]) = (if counts_for n r then Suc (mapped_count n pre) else mapped_count n pre)"
  by (simp add: mapped_count_def)

lemma mapped_count_append_le: "mapped_count n pre \<le> mapped_count n (pre @ rs)"
  by (simp add: mapped_count_def)

lemma mapped_count_fun_upd:
  assumes "verdict r = Some (Mapped, n, t)"
  shows "(\<lambda>m. mapped_count m (pre @ [r])) = (\<lambda>m. mapped_count m pre)(n := Suc (mapped_count n pre))"
  using assms by (auto simp: mapped_count_snoc counts_for_def fun_eq_iff)

lemma mapped_count_unchanged:
  assumes "\<And>n t. verdict r \<noteq> Some (Mapped, n, t)"
  shows "mapped_count m (pre @ [r]) = mapped_count m pre"
  using assms by (auto simp: mapped_count_snoc counts_for_def split: option.splits)

lemma loop_never_seen_too_often:
  assumes "counts_inv st (\<lambda>n. mapped_count n pre)"
    and "\<And>r n t. r \<in> set rs \<Longrightarrow> verdict r = Some (Mapped, n, t)
          \<Longrightarrow> int (mapped_count n (pre @ rs)) \<le> t"
  shows "filter_reads_loop st rs \<noteq> Inl (SeenTooOften m)"
  using assms
proof (induction rs arbitrary: st pre)
  case Nil
  show ?case by simp
next
  case (Cons r rs)
  have bound: "\<And>x n t. x \<in> set rs \<Longrightarrow> verdict x = Some (Mapped, n, t)
      \<Longrightarrow> int (mapped_count n ((pre @ [r]) @ rs)) \<le> t"
    using Cons.prems(2) by auto
  show ?case
  proof (cases "\<exists>n t. verdict r = Some (Mapped, n, t)")
    case True
    then obtain n t where v: "verdict r = Some (Mapped, n, t)" by blast
    have step: "filter_reads_step st r = count_mapped st n t"
      using step_of_verdict [OF v, of st] by simp
    have "int (mapped_count n (pre @ r # rs)) \<le> t"
      using Cons.prems(2) [of r n t] v by simp
    moreover have "mapped_count n ((pre @ [r]) @ rs) \<ge> mapped_count n (pre @ [r])"
      by (rule mapped_count_append_le)
    moreover have "mapped_count n (pre @ [r]) = Suc (mapped_count n pre)"
      using v by (simp add: mapped_count_snoc counts_for_def)
    ultimately have room: "int (mapped_count n pre) < t"
      by simp
    show ?thesis
    proof (cases "count_mapped st n t")
      case (Inl e)
      from count_mapped_error [OF Cons.prems(1) Inl] room show ?thesis
        by simp
    next
      case (Inr st')
      have "counts_inv st' (\<lambda>m. mapped_count m (pre @ [r]))"
        using counts_inv_mapped [OF Cons.prems(1) Inr] mapped_count_fun_upd [OF v, of pre]
        by simp
      from Cons.IH [OF this bound] show ?thesis
        by (simp add: step Inr)
    qed
  next
    case False
    then have nv: "\<And>n t. verdict r \<noteq> Some (Mapped, n, t)" by blast
    have same: "(\<lambda>m. mapped_count m (pre @ [r])) = (\<lambda>m. mapped_count m pre)"
      using mapped_count_unchanged [OF nv] by (simp add: fun_eq_iff)
    show ?thesis
    proof (cases "filter_reads_step st r")
      case (Inl e)
      have "e \<noteq> SeenTooOften m"
      proof (cases "verdict r")
        case None
        with step_no_verdict [of r st] Inl show ?thesis by auto
      next
        case (Some v)
        obtain out n t where "v = (out, n, t)" by (cases v) auto
        with Some nv [of n t] step_of_verdict [of r out n t st] Inl show ?thesis
          by (cases out) auto
      qed
      with Inl show ?thesis by simp
    next
      case (Inr st')
      have "read_counts st' = read_counts st \<and> keep_reads st' = keep_reads st"
      proof (cases "verdict r")
        case None
        with step_no_verdict [of r st] Inr show ?thesis by auto
      next
        case (Some v)
        obtain out n t where "v = (out, n, t)" by (cases v) auto
        with Some nv [of n t] step_of_verdict [of r out n t st] Inr show ?thesis
          by (cases out) (auto simp: add_bad_def)
      qed
      with Cons.prems(1) have "counts_inv st' (\<lambda>m. mapped_count m (pre @ [r]))"
        by (simp add: same counts_inv_same)
      from Cons.IH [OF this bound] show ?thesis
        by (simp add: Inr)
    qed
  qed
qed

lemma within_total_never_seen_too_often:
  assumes "within_total rs"
  shows "filter_reads rs \<noteq> Inl (SeenTooOften m)"
proof -
  have "int (mapped_count n ([] @ rs)) \<le> t" if "r \<in> set rs" "verdict r = Some (Mapped, n, t)" for r n t
    using assms that by (auto simp: within_total_def list_all_iff)
  from loop_never_seen_too_often
    [where pre = "[]" and rs = rs and st = init_state, OF counts_inv_init this]
  have "filter_reads_loop init_state rs \<noteq> Inl (SeenTooOften m)"
    by simp
  then show ?thesis
    by (auto simp: filter_reads_def split: sum.splits)
qed

lemma count_mapped_seen_too_often:
  "(case read_counts st n of None \<Rightarrow> 1 | Some c \<Rightarrow> c + 1) = t \<Longrightarrow> n \<in> keep_reads st \<Longrightarrow>
   count_mapped st n t = Inl (SeenTooOften n)"
  by (simp add: count_mapped_def Let_def)

text \<open>
  Claim C4. When a run has reached a state in which the original name of the next record is
  in \<^verbatim>\<open>keep_reads\<close>, and the record is correctly mapped and brings the count of the name
  to its total, the body raises the error of line 131, and \<^verbatim>\<open>filter_reads\<close> and
  \<^verbatim>\<open>main\<close> end with it. On a stream in which every correctly mapped record announces a
  total that is at least the number of correctly mapped records of its name in the whole
  stream, this error is never raised.
\<close>

theorem seen_too_often_is_fatal:
  "(filter_reads_loop init_state before = Inr st
      \<and> verdict read = Some (Mapped, orig_name, tot)
      \<and> (case read_counts st orig_name of None \<Rightarrow> 1 | Some c \<Rightarrow> c + 1) = tot
      \<and> orig_name \<in> keep_reads st
    \<longrightarrow> filter_reads_step st read = Inl (SeenTooOften orig_name)
      \<and> filter_reads (before @ read # rest) = Inl (SeenTooOften orig_name)
      \<and> main to_remap_bam (before @ read # rest) = Inl (SeenTooOften orig_name))
   \<and> (within_total remap_bam \<longrightarrow> filter_reads remap_bam \<noteq> Inl (SeenTooOften name))"
proof (intro conjI)
  show "filter_reads_loop init_state before = Inr st
      \<and> verdict read = Some (Mapped, orig_name, tot)
      \<and> (case read_counts st orig_name of None \<Rightarrow> 1 | Some c \<Rightarrow> c + 1) = tot
      \<and> orig_name \<in> keep_reads st
    \<longrightarrow> filter_reads_step st read = Inl (SeenTooOften orig_name)
      \<and> filter_reads (before @ read # rest) = Inl (SeenTooOften orig_name)
      \<and> main to_remap_bam (before @ read # rest) = Inl (SeenTooOften orig_name)"
  proof
    assume h: "filter_reads_loop init_state before = Inr st
      \<and> verdict read = Some (Mapped, orig_name, tot)
      \<and> (case read_counts st orig_name of None \<Rightarrow> 1 | Some c \<Rightarrow> c + 1) = tot
      \<and> orig_name \<in> keep_reads st"
    then have step: "filter_reads_step st read = Inl (SeenTooOften orig_name)"
      using step_of_verdict [of read Mapped orig_name tot st]
        count_mapped_seen_too_often [of st orig_name tot]
      by simp
    with h show "filter_reads_step st read = Inl (SeenTooOften orig_name)
      \<and> filter_reads (before @ read # rest) = Inl (SeenTooOften orig_name)
      \<and> main to_remap_bam (before @ read # rest) = Inl (SeenTooOften orig_name)"
      by (simp add: filter_reads_def main_def filter_reads_loop_append)
  qed
next
  show "within_total remap_bam \<longrightarrow> filter_reads remap_bam \<noteq> Inl (SeenTooOften name)"
    by (simp add: within_total_never_seen_too_often)
qed

lemmas count_simps = within_total_def mapped_count_def counts_for_def

theorem seen_too_often_is_fatal_witness:
  "filter_reads ([single_end ''a.101.1.1'' 100] @ single_end ''a.101.1.1'' 100 # [])
     = Inl (SeenTooOften ''a'')
   \<and> \<not> within_total [single_end ''a.101.1.1'' 100, single_end ''a.101.1.1'' 100]
   \<and> within_total [single_end ''a.101.1.2'' 100, single_end ''b.7.1.1'' 6,
        single_end ''a.101.2.2'' 100]
   \<and> filter_reads [single_end ''a.101.1.2'' 100, single_end ''b.7.1.1'' 6,
        single_end ''a.101.2.2'' 100] \<noteq> Inl (SeenTooOften ''a'')"
proof -
  let ?kept = "\<lparr>read_counts = Map.empty, keep_reads = {''a''}, bad_reads = {}\<rparr>"
  have va: "verdict (single_end ''a.101.1.1'' 100) = Some (Mapped, ''a'', 1)"
    by (simp add: verdict_simps)
  have v1: "verdict (single_end ''a.101.1.2'' 100) = Some (Mapped, ''a'', 2)"
    by (simp add: verdict_simps)
  have v2: "verdict (single_end ''a.101.2.2'' 100) = Some (Mapped, ''a'', 2)"
    by (simp add: verdict_simps)
  have vb: "verdict (single_end ''b.7.1.1'' 6) = Some (Mapped, ''b'', 1)"
    by (simp add: verdict_simps)
  have before: "filter_reads_loop init_state [single_end ''a.101.1.1'' 100] = Inr ?kept"
    by (simp add: run_simps)
  have first: "filter_reads ([single_end ''a.101.1.1'' 100] @ single_end ''a.101.1.1'' 100 # [])
     = Inl (SeenTooOften ''a'')"
    by (rule seen_too_often_is_fatal
      [of "[single_end ''a.101.1.1'' 100]" ?kept "single_end ''a.101.1.1'' 100" "''a''" 1 "[]",
        THEN conjunct1, THEN mp, THEN conjunct2, THEN conjunct1])
       (intro conjI before va, simp_all)
  have over: "\<not> within_total [single_end ''a.101.1.1'' 100, single_end ''a.101.1.1'' 100]"
    by (simp add: count_simps va)
  have ok: "within_total [single_end ''a.101.1.2'' 100, single_end ''b.7.1.1'' 6,
        single_end ''a.101.2.2'' 100]"
    by (simp add: count_simps v1 v2 vb)
  have second: "filter_reads [single_end ''a.101.1.2'' 100, single_end ''b.7.1.1'' 6,
        single_end ''a.101.2.2'' 100] \<noteq> Inl (SeenTooOften ''a'')"
    by (rule seen_too_often_is_fatal [THEN conjunct2, THEN mp, OF ok])
  show ?thesis
    by (intro conjI first over ok second)
qed

end
